theory Spec2Isabelle
  imports Main "HOL-Library.FSet"
begin

section \<open>Data model\<close>

text \<open>
  A JavaScript string is a sequence of UTF-16 code units; a code unit is a natural
  number.  \<open>s.length\<close> is \<open>length s\<close>.  A one-character string such as \<open>'_'\<close> is the
  singleton list \<open>[95]\<close>.
\<close>

type_synonym jsstring = "nat list"

text \<open>
  \<open>s.charCodeAt(0)\<close> yields a number; on the empty string it yields \<open>NaN\<close>, which is
  \<open>None\<close> here.  Every comparison with \<open>NaN\<close> is false.
\<close>

definition charCodeAt0 :: "jsstring \<Rightarrow> nat option" where
  "charCodeAt0 s = (case s of [] \<Rightarrow> None | c # _ \<Rightarrow> Some c)"

definition num_less :: "nat option \<Rightarrow> nat \<Rightarrow> bool" where
  "num_less x n = (case x of None \<Rightarrow> False | Some c \<Rightarrow> c < n)"

definition num_greater :: "nat option \<Rightarrow> nat \<Rightarrow> bool" where
  "num_greater x n = (case x of None \<Rightarrow> False | Some c \<Rightarrow> n < c)"

text \<open>
  \<open>word[k]\<close> is the one-character string at index \<open>k\<close>, or \<open>undefined\<close> (\<open>None\<close>) when
  \<open>k\<close> is out of range.  Calling a method on \<open>undefined\<close> raises a \<open>TypeError\<close>.
\<close>

definition char_at :: "jsstring \<Rightarrow> nat \<Rightarrow> jsstring option" where
  "char_at s k = (if k < length s then Some [s ! k] else None)"

datatype error = TypeError

definition WORD_PREFIXES :: "jsstring list" where
  "WORD_PREFIXES = [[95], [36], [45]]"

definition WORD_PREFIXES_CODE :: "nat list" where
  "WORD_PREFIXES_CODE = [95, 36, 45]"

definition ASCII_END :: nat where
  "ASCII_END = 128"

definition MAX_COUNT :: nat where
  "MAX_COUNT = 50"

text \<open>
  What the scan imports from outside the file: the helpers of \<open>util/fuzzy\<close>, the
  \<open>unidecode\<close> package, the flag \<open>global.__TEST__\<close> and the clock.  \<open>clock_start\<close> is
  the value of the first \<open>Date.now()\<close>; \<open>clock_at n\<close> is the value \<open>Date.now()\<close> returns
  at the periodic check made when the candidate counter is \<open>n\<close>.
\<close>

record extern =
  caseMatch :: "nat option \<Rightarrow> nat option \<Rightarrow> bool"
  fuzzyMatch :: "nat list \<Rightarrow> jsstring \<Rightarrow> bool"
  getCharCodes :: "jsstring \<Rightarrow> nat list"
  unidecode :: "jsstring \<Rightarrow> jsstring"
  test_mode :: bool
  clock_start :: int
  clock_at :: "nat \<Rightarrow> int"

definition MAX_DURATION :: "extern \<Rightarrow> int" where
  "MAX_DURATION E = (if test_mode E then 20 else 80)"

section \<open>The first-character pre-filter\<close>

text \<open>
  \<open>firstMatchFuzzy(firstCode, ascii, word)\<close>.  The reads \<open>word[0]\<close> and \<open>word[1]\<close> may be
  \<open>undefined\<close>; the next \<open>ch.charCodeAt(0)\<close> then raises, on either path.
\<close>

definition firstMatchFuzzy :: "extern \<Rightarrow> nat option \<Rightarrow> bool \<Rightarrow> jsstring \<Rightarrow> error + bool" where
  "firstMatchFuzzy E firstCode ascii word =
     (let ch = char_at word 0;
          ch = (if ascii \<and> \<not> firstCode \<in> set (map Some WORD_PREFIXES_CODE)
                   \<and> ch \<in> set (map Some WORD_PREFIXES)
                then char_at word 1 else ch)
      in case ch of
           None \<Rightarrow> Inl TypeError
         | Some c \<Rightarrow>
             (let c = (if ascii \<and> num_greater (charCodeAt0 c) ASCII_END then unidecode E c else c)
              in Inr (caseMatch E firstCode (charCodeAt0 c))))"

section \<open>The scan\<close>

text \<open>
  Calls that leave the function are recorded as events: the two matcher calls (with the
  candidate they are made for), the periodic check (the clock read and the poll of the
  token, with the value of the counter) and the yield to the host.
\<close>

datatype event =
    CallFirstMatchFuzzy jsstring
  | CallFuzzyMatch jsstring
  | Checked nat
  | WaitImmediate nat

text \<open>
  The mutable state of one call: the counter \<open>i\<close>, the local \<open>prev\<close>, the caller's
  set \<open>items\<close>, the set \<open>noMatchWords\<close> of the source object, and the events so far.
\<close>

record scan_state =
  ctr :: nat
  prev :: int
  items :: "jsstring fset"
  noMatchWords :: "jsstring fset"
  trace :: "event list"

text \<open>
  What stays fixed during one call: the configuration value \<open>this.firstMatch\<close>, the
  arguments \<open>input\<close> and \<open>exclude\<close>, and the token; \<open>token n\<close> is the value of
  \<open>token.isCancellationRequested\<close> at the check made when the counter is \<open>n\<close>.
\<close>

record args =
  firstMatch :: bool
  input :: jsstring
  exclude :: jsstring
  token :: "nat \<Rightarrow> bool"

text \<open>The locals \<open>firstCode\<close> and \<open>ascii\<close>, computed from \<open>input\<close> before the loops.\<close>

definition firstCode :: "jsstring \<Rightarrow> nat option" where
  "firstCode inp = charCodeAt0 inp"

definition ascii :: "jsstring \<Rightarrow> bool" where
  "ascii inp = num_less (firstCode inp) ASCII_END"

datatype outcome = Continue | Return bool | Throw error

text \<open>
  The block guarded by \<open>i % 100 === 0\<close>; its boolean is the condition of the \<open>return true\<close>.
  This is the block in a run where no other task touches the source object while the scan
  is suspended at \<open>await waitImmediate()\<close>; \<open>checkpoint_ev\<close> below is the block in a run
  where the \<open>CompleteDone\<close> handler may be called during the suspension.
\<close>

definition checkpoint :: "extern \<Rightarrow> args \<Rightarrow> scan_state \<Rightarrow> bool \<times> scan_state" where
  "checkpoint E A st =
     (let curr = clock_at E (ctr st);
          st = st\<lparr>trace := trace st @ [Checked (ctr st)]\<rparr>;
          st = (if curr - prev st > 15
                then st\<lparr>prev := curr, trace := trace st @ [WaitImmediate (ctr st)]\<rparr>
                else st)
      in (token A (ctr st) \<or> curr - clock_start E > MAX_DURATION E, st))"

text \<open>The condition \<open>firstMatch && !firstMatchFuzzy(firstCode, ascii, w)\<close>.\<close>

definition first_test :: "extern \<Rightarrow> args \<Rightarrow> scan_state \<Rightarrow> jsstring \<Rightarrow> (error + bool) \<times> scan_state" where
  "first_test E A st w =
     (if firstMatch A
      then (case firstMatchFuzzy E (firstCode (input A)) (ascii (input A)) w of
              Inl e \<Rightarrow> Inl e
            | Inr b \<Rightarrow> Inr (\<not> b),
            st\<lparr>trace := trace st @ [CallFirstMatchFuzzy w]\<rparr>)
      else (Inr False, st))"

text \<open>
  The block guarded by \<open>len > 1\<close>; its boolean is \<open>matched\<close>, and it is true when the
  block is not entered.  \<open>w[0]\<close> is read only when \<open>ascii\<close> holds.
\<close>

definition second_test :: "extern \<Rightarrow> args \<Rightarrow> scan_state \<Rightarrow> jsstring \<Rightarrow> (error + bool) \<times> scan_state" where
  "second_test E A st w =
     (if length (input A) > 1
      then ((if ascii (input A)
             then (case char_at w 0 of
                     None \<Rightarrow> Inl TypeError
                   | Some c \<Rightarrow>
                       Inr (fuzzyMatch E (getCharCodes E (input A))
                              (if num_greater (charCodeAt0 c) ASCII_END then unidecode E w else w)))
             else Inr (fuzzyMatch E (getCharCodes E (input A)) w)),
            st\<lparr>trace := trace st @ [CallFuzzyMatch w]\<rparr>)
      else (Inr True, st))"

text \<open>The body of the inner loop, for the candidate \<open>w\<close>.\<close>

definition loop_body :: "extern \<Rightarrow> args \<Rightarrow> scan_state \<Rightarrow> jsstring \<Rightarrow> outcome \<times> scan_state" where
  "loop_body E A st w =
     (let st = st\<lparr>ctr := ctr st + 1\<rparr>;
          (stop, st) = (if ctr st mod 100 = 0 then checkpoint E A st else (False, st))
      in if stop then (Return True, st)
         else if length w \<le> 1 \<or> w = exclude A \<or> w |\<in>| items st \<or> w |\<in>| noMatchWords st
         then (Continue, st)
         else (case first_test E A st w of
                 (Inl e, st) \<Rightarrow> (Throw e, st)
               | (Inr True, st) \<Rightarrow> (Continue, st\<lparr>noMatchWords := finsert w (noMatchWords st)\<rparr>)
               | (Inr False, st) \<Rightarrow>
                   (case second_test E A st w of
                      (Inl e, st) \<Rightarrow> (Throw e, st)
                    | (Inr False, st) \<Rightarrow>
                        (Continue, st\<lparr>noMatchWords := finsert w (noMatchWords st)\<rparr>)
                    | (Inr True, st) \<Rightarrow>
                        (let st = st\<lparr>items := finsert w (items st)\<rparr>
                         in if fcard (items st) = MAX_COUNT then (Return True, st)
                            else (Continue, st)))))"

text \<open>\<open>for (let w of iterable)\<close>: a \<open>return\<close> or an exception leaves the loop.\<close>

fun for_words :: "extern \<Rightarrow> args \<Rightarrow> scan_state \<Rightarrow> jsstring list \<Rightarrow> outcome \<times> scan_state" where
  "for_words E A st [] = (Continue, st)"
| "for_words E A st (w # ws) =
     (case loop_body E A st w of
        (Continue, st') \<Rightarrow> for_words E A st' ws
      | r \<Rightarrow> r)"

text \<open>\<open>for (let iterable of iterables)\<close>, followed by the final \<open>return false\<close>.\<close>

fun for_iterables :: "extern \<Rightarrow> args \<Rightarrow> scan_state \<Rightarrow> jsstring list list \<Rightarrow> outcome \<times> scan_state" where
  "for_iterables E A st [] = (Return False, st)"
| "for_iterables E A st (iterable # iterables) =
     (case for_words E A st iterable of
        (Continue, st') \<Rightarrow> for_iterables E A st' iterables
      | r \<Rightarrow> r)"

text \<open>
  \<open>getResults(iterables, input, exclude, items, token)\<close> on a source whose fields
  \<open>firstMatch\<close> and \<open>noMatchWords\<close> have the values \<open>fm\<close> and \<open>nmw\<close>; \<open>its\<close> are the
  streams and \<open>acc\<close> is the accumulator \<open>items\<close> on entry.  The result is the returned
  boolean (or the exception) and the state the call leaves behind.
\<close>

definition getResults ::
  "extern \<Rightarrow> bool \<Rightarrow> jsstring fset \<Rightarrow> jsstring list list \<Rightarrow> jsstring \<Rightarrow> jsstring \<Rightarrow>
   jsstring fset \<Rightarrow> (nat \<Rightarrow> bool) \<Rightarrow> outcome \<times> scan_state" where
  "getResults E fm nmw its inp excl acc tok =
     for_iterables E \<lparr>firstMatch = fm, input = inp, exclude = excl, token = tok\<rparr>
       \<lparr>ctr = 0, prev = clock_start E, items = acc, noMatchWords = nmw, trace = []\<rparr>
       its"


subsection \<open>The scan with the session-end handler in between\<close>






section \<open>Derived notions used in the statements\<close>

text \<open>The periodic check is due when the counter is \<open>n\<close>, and it ends the scan; \<open>tok\<close> is the token.\<close>

definition fires :: "extern \<Rightarrow> (nat \<Rightarrow> bool) \<Rightarrow> nat \<Rightarrow> bool" where
  "fires E tok n =
     (n mod 100 = 0 \<and> (tok n \<or> clock_at E n - clock_start E > MAX_DURATION E))"

text \<open>The condition of the first \<open>continue\<close>.\<close>

definition skipped :: "args \<Rightarrow> scan_state \<Rightarrow> jsstring \<Rightarrow> bool" where
  "skipped A st w =
     (length w \<le> 1 \<or> w = exclude A \<or> w |\<in>| items st \<or> w |\<in>| noMatchWords st)"

text \<open>The argument the loop body passes to \<open>fuzzyMatch\<close> for the candidate \<open>w\<close>.\<close>

definition fuzzy_arg :: "extern \<Rightarrow> args \<Rightarrow> jsstring \<Rightarrow> jsstring" where
  "fuzzy_arg E A w =
     (if ascii (input A) \<and> num_greater (charCodeAt0 (take 1 w)) ASCII_END then unidecode E w else w)"

text \<open>
  The candidate passes both tests of the loop body: the pre-filter when \<open>firstMatch\<close> is
  set, and \<open>fuzzyMatch\<close> when the input is longer than one character.
\<close>

definition matches :: "extern \<Rightarrow> args \<Rightarrow> jsstring \<Rightarrow> bool" where
  "matches E A w =
     ((firstMatch A \<longrightarrow> firstMatchFuzzy E (firstCode (input A)) (ascii (input A)) w = Inr True) \<and>
      (1 < length (input A) \<longrightarrow> fuzzyMatch E (getCharCodes E (input A)) (fuzzy_arg E A w)))"

text \<open>Projections of the event list: the candidates each matcher was called for, and
  the counter values at which the periodic check ran.\<close>

definition first_tested :: "event list \<Rightarrow> jsstring list" where
  "first_tested tr = concat (map (\<lambda>e. case e of CallFirstMatchFuzzy w \<Rightarrow> [w] | _ \<Rightarrow> []) tr)"

definition fuzzy_tested :: "event list \<Rightarrow> jsstring list" where
  "fuzzy_tested tr = concat (map (\<lambda>e. case e of CallFuzzyMatch w \<Rightarrow> [w] | _ \<Rightarrow> []) tr)"

definition checked_at :: "event list \<Rightarrow> nat list" where
  "checked_at tr = concat (map (\<lambda>e. case e of Checked n \<Rightarrow> [n] | _ \<Rightarrow> []) tr)"


section \<open>Concrete collaborators for the examples\<close>

text \<open>
  Modelled from the spec: \<open>caseMatch\<close> of \<open>util/fuzzy\<close>, which is not part of the
  sources at hand.  Two character codes match if they are equal, or if one is the
  ASCII upper-case or lower-case counterpart of the other.  \<open>NaN\<close> matches nothing.
\<close>

definition caseMatch_spec :: "nat option \<Rightarrow> nat option \<Rightarrow> bool" where
  "caseMatch_spec a b =
     (case (a, b) of
        (Some x, Some y) \<Rightarrow>
          x = y \<or> (65 \<le> x \<and> x \<le> 90 \<and> y = x + 32) \<or> (65 \<le> y \<and> y \<le> 90 \<and> x = y + 32)
      | _ \<Rightarrow> False)"

text \<open>
  Modelled from the spec: \<open>getCharCodes\<close> of \<open>util/fuzzy\<close>, which is not part of the
  sources at hand: the input reduced to its sequence of lower-case-normalised character
  codes.
\<close>

definition getCharCodes_spec :: "jsstring \<Rightarrow> nat list" where
  "getCharCodes_spec s = map (\<lambda>c. if 65 \<le> c \<and> c \<le> 90 then c + 32 else c) s"

text \<open>
  Modelled from the spec: the subsequence test of \<open>fuzzyMatch\<close> of \<open>util/fuzzy\<close>, which
  is not part of the sources at hand.  Every code of the input appears in the candidate,
  in order, compared without regard to case, with skipped characters allowed in between.
\<close>

fun subseq_codes :: "nat list \<Rightarrow> jsstring \<Rightarrow> bool" where
  "subseq_codes [] w = True"
| "subseq_codes (c # cs) [] = False"
| "subseq_codes (c # cs) (x # xs) =
     (if caseMatch_spec (Some c) (Some x) then subseq_codes cs xs else subseq_codes (c # cs) xs)"

text \<open>
  Modelled from the spec: \<open>fuzzyMatch\<close> of \<open>util/fuzzy\<close>, the subsequence test above; the
  empty candidate never matches.
\<close>

definition fuzzyMatch_spec :: "nat list \<Rightarrow> jsstring \<Rightarrow> bool" where
  "fuzzyMatch_spec codes w = (w \<noteq> [] \<and> subseq_codes codes w)"

text \<open>
  A stand-in for the \<open>unidecode\<close> package in the examples: it sends the code unit 233
  (e with acute accent) to 101 (e) and leaves every other code unit as it is.
\<close>

definition unidecode_sample :: "jsstring \<Rightarrow> jsstring" where
  "unidecode_sample s = map (\<lambda>c. if c = 233 then 101 else c) s"

text \<open>The collaborators of the examples: normal mode, and a clock that stands still.\<close>

definition E0 :: extern where
  "E0 = \<lparr>caseMatch = caseMatch_spec, fuzzyMatch = fuzzyMatch_spec,
         getCharCodes = getCharCodes_spec, unidecode = unidecode_sample,
         test_mode = False, clock_start = 0, clock_at = (\<lambda>n. 0)\<rparr>"

text \<open>The words \<open>foo\<close>, \<open>far\<close>, \<open>bar\<close> and \<open>_test\<close>, and the inputs \<open>f\<close> and \<open>fo\<close>.\<close>

definition w_foo :: jsstring where "w_foo = [102, 111, 111]"
definition w_far :: jsstring where "w_far = [102, 97, 114]"
definition w_bar :: jsstring where "w_bar = [98, 97, 114]"
definition w_test :: jsstring where "w_test = [95, 116, 101, 115, 116]"
definition in_f :: jsstring where "in_f = [102]"
definition in_fo :: jsstring where "in_fo = [102, 111]"

text \<open>Forty-nine distinct two-letter words, none of them among the words above.\<close>

definition seed49 :: "jsstring fset" where
  "seed49 = fset_of_list (map (\<lambda>n. [122, 65 + n]) [0..<49])"

text \<open>Fifty words: the forty-nine and \<open>far\<close>.\<close>

definition seed50 :: "jsstring fset" where
  "seed50 = finsert w_far seed49"

text \<open>The input \<open>e\<close> with acute accent, and the word that is an underscore followed by it.\<close>

definition in_eacute :: jsstring where "in_eacute = [233]"
definition w_ueacute :: jsstring where "w_ueacute = [95, 233]"

text \<open>A stream of a hundred candidates, each the word \<open>bar\<close>.\<close>

definition hundred_bars :: "jsstring list" where
  "hundred_bars = replicate 100 w_bar"



text \<open>A token that never signals, and one signalled before the scan begins.\<close>

definition never_cancelled :: "nat \<Rightarrow> bool" where
  "never_cancelled n = False"

definition pre_cancelled :: "nat \<Rightarrow> bool" where
  "pre_cancelled n = True"

section \<open>The loop body, summarised\<close>

lemma fmf_total: "2 \<le> length w \<Longrightarrow> \<exists>b. firstMatchFuzzy E fc a w = Inr b"
  by (cases w; cases "tl w") (auto simp: firstMatchFuzzy_def char_at_def Let_def)

lemma checkpoint_summary:
  "checkpoint E A st = (b, st') \<Longrightarrow>
     b = (token A (ctr st) \<or> clock_at E (ctr st) - clock_start E > MAX_DURATION E) \<and>
     ctr st' = ctr st \<and> items st' = items st \<and> noMatchWords st' = noMatchWords st \<and>
     first_tested (trace st') = first_tested (trace st) \<and>
     fuzzy_tested (trace st') = fuzzy_tested (trace st) \<and>
     checked_at (trace st') = checked_at (trace st) @ [ctr st]"
  by (auto simp: checkpoint_def Let_def first_tested_def fuzzy_tested_def checked_at_def split: if_splits)

lemma first_test_summary:
  assumes "2 \<le> length w" "first_test E A st w = (r, st')"
  shows "r = Inr (firstMatch A \<and> firstMatchFuzzy E (firstCode (input A)) (ascii (input A)) w \<noteq> Inr True) \<and>
     ctr st' = ctr st \<and> items st' = items st \<and> noMatchWords st' = noMatchWords st \<and>
     first_tested (trace st') = first_tested (trace st) @ (if firstMatch A then [w] else []) \<and>
     fuzzy_tested (trace st') = fuzzy_tested (trace st) \<and>
     checked_at (trace st') = checked_at (trace st)"
  using assms(2) fmf_total[OF assms(1), of E "firstCode (input A)" "ascii (input A)"]
  by (auto simp: first_test_def first_tested_def fuzzy_tested_def checked_at_def split: if_splits)

lemma second_test_summary:
  assumes "2 \<le> length w" "second_test E A st w = (r, st')"
  shows "r = Inr (1 < length (input A) \<longrightarrow> fuzzyMatch E (getCharCodes E (input A)) (fuzzy_arg E A w)) \<and>
     ctr st' = ctr st \<and> items st' = items st \<and> noMatchWords st' = noMatchWords st \<and>
     first_tested (trace st') = first_tested (trace st) \<and>
     fuzzy_tested (trace st') = fuzzy_tested (trace st) @ (if 1 < length (input A) then [w] else []) \<and>
     checked_at (trace st') = checked_at (trace st)"
  using assms
  by (cases w) (auto simp: second_test_def fuzzy_arg_def char_at_def first_tested_def fuzzy_tested_def checked_at_def split: if_splits)


lemma body_summary:
  assumes "loop_body E A st w = (r, st')"
  shows "ctr st' = Suc (ctr st) \<and>
     checked_at (trace st') =
       checked_at (trace st) @ (if Suc (ctr st) mod 100 = 0 then [Suc (ctr st)] else []) \<and>
     (if fires E (token A) (Suc (ctr st)) \<or> skipped A st w then
        r = (if fires E (token A) (Suc (ctr st)) then Return True else Continue) \<and>
        items st' = items st \<and> noMatchWords st' = noMatchWords st \<and>
        first_tested (trace st') = first_tested (trace st) \<and>
        fuzzy_tested (trace st') = fuzzy_tested (trace st)
      else
        first_tested (trace st') = first_tested (trace st) @ (if firstMatch A then [w] else []) \<and>
        fuzzy_tested (trace st') = fuzzy_tested (trace st) @
          (if (firstMatch A \<longrightarrow> firstMatchFuzzy E (firstCode (input A)) (ascii (input A)) w = Inr True)
               \<and> 1 < length (input A) then [w] else []) \<and>
        (if matches E A w then
           items st' = finsert w (items st) \<and> noMatchWords st' = noMatchWords st \<and>
           r = (if fcard (finsert w (items st)) = MAX_COUNT then Return True else Continue)
         else
           items st' = items st \<and> noMatchWords st' = finsert w (noMatchWords st) \<and>
           r = Continue))"
proof -
  define st1 where "st1 = st\<lparr>ctr := ctr st + 1\<rparr>"
  obtain stop st2 where h: "(if ctr st1 mod 100 = 0 then checkpoint E A st1 else (False, st1)) = (stop, st2)"
    by (cases "if ctr st1 mod 100 = 0 then checkpoint E A st1 else (False, st1)") auto
  have h2: "stop = fires E (token A) (Suc (ctr st)) \<and> ctr st2 = Suc (ctr st) \<and> items st2 = items st
      \<and> noMatchWords st2 = noMatchWords st
      \<and> first_tested (trace st2) = first_tested (trace st)
      \<and> fuzzy_tested (trace st2) = fuzzy_tested (trace st)
      \<and> checked_at (trace st2) = checked_at (trace st) @ (if Suc (ctr st) mod 100 = 0 then [Suc (ctr st)] else [])"
  proof (cases "ctr st1 mod 100 = 0")
    case True
    then have "checkpoint E A st1 = (stop, st2)" using h by simp
    from checkpoint_summary[OF this] True show ?thesis
      by (simp add: st1_def fires_def)
  next
    case False
    then show ?thesis using h by (auto simp: st1_def fires_def)
  qed
  have body: "(r, st') =
      (if stop then (Return True, st2)
         else if length w \<le> 1 \<or> w = exclude A \<or> w |\<in>| items st2 \<or> w |\<in>| noMatchWords st2
         then (Continue, st2)
         else (case first_test E A st2 w of
                 (Inl e, st) \<Rightarrow> (Throw e, st)
               | (Inr True, st) \<Rightarrow> (Continue, st\<lparr>noMatchWords := finsert w (noMatchWords st)\<rparr>)
               | (Inr False, st) \<Rightarrow>
                   (case second_test E A st w of
                      (Inl e, st) \<Rightarrow> (Throw e, st)
                    | (Inr False, st) \<Rightarrow>
                        (Continue, st\<lparr>noMatchWords := finsert w (noMatchWords st)\<rparr>)
                    | (Inr True, st) \<Rightarrow>
                        (let st = st\<lparr>items := finsert w (items st)\<rparr>
                         in if fcard (items st) = MAX_COUNT then (Return True, st)
                            else (Continue, st)))))"
    using assms h unfolding loop_body_def st1_def Let_def by (simp split: prod.splits)
  show ?thesis
  proof (cases "stop \<or> skipped A st w")
    case True
    then show ?thesis using body h2 by (auto simp: skipped_def split: if_splits)
  next
    case False
    then have len: "2 \<le> length w" and ns: "\<not> skipped A st w" and nf: "\<not> stop" by (auto simp: skipped_def)
    obtain r1 st3 where f: "first_test E A st2 w = (r1, st3)" by (cases "first_test E A st2 w") auto
    note F = first_test_summary[OF len f]
    show ?thesis
    proof (cases "firstMatch A \<and> firstMatchFuzzy E (firstCode (input A)) (ascii (input A)) w \<noteq> Inr True")
      case True
      then have "\<not> matches E A w" by (auto simp: matches_def)
      moreover have "(r, st') = (Continue, st3\<lparr>noMatchWords := finsert w (noMatchWords st3)\<rparr>)"
        using body nf ns h2 f F True by (simp add: skipped_def)
      ultimately show ?thesis using F h2 nf ns True by auto
    next
      case nt: False
      obtain r2 st4 where s: "second_test E A st3 w = (r2, st4)" by (cases "second_test E A st3 w") auto
      note S = second_test_summary[OF len s]
      have m: "matches E A w = (1 < length (input A) \<longrightarrow> fuzzyMatch E (getCharCodes E (input A)) (fuzzy_arg E A w))"
        using nt by (auto simp: matches_def)
      have r1: "r1 = Inr False" using F nt by simp
      show ?thesis
      proof (cases "matches E A w")
        case True
        then have "r2 = Inr True" using S m by simp
        then have "(r, st') = (let st = st4\<lparr>items := finsert w (items st4)\<rparr>
                         in if fcard (items st) = MAX_COUNT then (Return True, st)
                            else (Continue, st))"
          using body nf ns h2 f r1 s by (simp add: skipped_def)
        then show ?thesis using True F S h2 nf ns nt by (auto simp: Let_def split: if_splits)
      next
        case False
        then have "r2 = Inr False" using S m by simp
        then have "(r, st') = (Continue, st4\<lparr>noMatchWords := finsert w (noMatchWords st4)\<rparr>)"
          using body nf ns h2 f r1 s by (simp add: skipped_def)
        then show ?thesis using False F S h2 nf ns nt by (auto simp: Let_def split: if_splits)
      qed
    qed
  qed
qed

section \<open>The loops\<close>

lemma for_words_append:
  "for_words E A st (xs @ ys) =
     (case for_words E A st xs of (Continue, st') \<Rightarrow> for_words E A st' ys | r \<Rightarrow> r)"
  by (induction xs arbitrary: st) (auto split: prod.splits outcome.splits)

lemma for_iterables_concat:
  "for_iterables E A st its =
     (case for_words E A st (concat its) of (Continue, st') \<Rightarrow> (Return False, st') | r \<Rightarrow> r)"
  by (induction its arbitrary: st) (auto simp: for_words_append split: prod.splits outcome.splits)

lemma for_words_Cons_cases:
  assumes "for_words E A st (w # ws) = (r, st')"
  obtains (Go) st1 where "loop_body E A st w = (Continue, st1)" "for_words E A st1 ws = (r, st')"
        | (Halt) "loop_body E A st w = (r, st')" "r \<noteq> Continue"
  using assms by (cases "loop_body E A st w") (auto split: outcome.splits)

lemma body_outcome:
  assumes "loop_body E A st w = (r, st')"
  shows "r = Continue \<or> r = Return True"
  using body_summary[OF assms] by (auto split: if_splits)

lemma body_mono:
  assumes "loop_body E A st w = (r, st')"
  shows "items st |\<subseteq>| items st' \<and> noMatchWords st |\<subseteq>| noMatchWords st'"
  using body_summary[OF assms] by (auto split: if_splits)

lemma for_words_basic:
  "for_words E A st ws = (r, st') \<Longrightarrow>
     ctr st \<le> ctr st' \<and> ctr st' \<le> ctr st + length ws \<and>
     (r = Continue \<longrightarrow> ctr st' = ctr st + length ws) \<and>
     (r \<noteq> Continue \<longrightarrow> r = Return True \<and> ctr st < ctr st') \<and>
     items st |\<subseteq>| items st' \<and> noMatchWords st |\<subseteq>| noMatchWords st'"
proof (induction ws arbitrary: st)
  case Nil
  then show ?case by simp
next
  case (Cons w ws)
  from Cons.prems show ?case
  proof (cases rule: for_words_Cons_cases)
    case (Go st1)
    from body_summary[OF Go(1)] have c: "ctr st1 = Suc (ctr st)" by simp
    from Cons.IH[OF Go(2)] body_mono[OF Go(1)] c show ?thesis by auto
  next
    case Halt
    from body_summary[OF Halt(1)] have c: "ctr st' = Suc (ctr st)" by simp
    from body_outcome[OF Halt(1)] body_mono[OF Halt(1)] c Halt(2) show ?thesis by auto
  qed
qed


lemma fsubset_sandwich: "A |\<subseteq>| B \<Longrightarrow> B |\<subseteq>| C \<Longrightarrow> C = A \<Longrightarrow> B = A"
  by auto

lemma for_words_stop:
  "for_words E A st ws = (r, st') \<Longrightarrow>
     (r = Return True \<longrightarrow>
        (fires E (token A) (ctr st') \<and> (items st' = items st \<or> fcard (items st') \<noteq> MAX_COUNT)) \<or>
        (\<not> fires E (token A) (ctr st') \<and> fcard (items st') = MAX_COUNT \<and> items st' \<noteq> items st)) \<and>
     (r = Continue \<longrightarrow>
        (items st' = items st \<or> fcard (items st') \<noteq> MAX_COUNT) \<and>
        (ws \<noteq> [] \<longrightarrow> \<not> fires E (token A) (ctr st')))"
proof (induction ws arbitrary: st)
  case Nil
  then show ?case by simp
next
  case (Cons w ws)
  from Cons.prems show ?case
  proof (cases rule: for_words_Cons_cases)
    case (Go st1)
    note B = body_summary[OF Go(1)]
    note M = body_mono[OF Go(1)]
    note R = for_words_basic[OF Go(2)]
    note IH = Cons.IH[OF Go(2)]
    have nf: "\<not> fires E (token A) (ctr st1)" using B by (auto split: if_splits)
    have keep: "items st1 = items st \<or> fcard (items st1) \<noteq> MAX_COUNT"
      using B by (auto split: if_splits)
    have ws_nil: "ws = [] \<Longrightarrow> st' = st1 \<and> r = Continue" using Go(2) by simp
    have neq: "items st' \<noteq> items st1 \<Longrightarrow> items st' \<noteq> items st"
      using M R fsubset_sandwich[of "items st" "items st1" "items st'"] by auto
    show ?thesis
    proof (cases "items st' = items st1")
      case True
      then show ?thesis using IH keep nf ws_nil by (cases "ws = []") auto
    next
      case False
      then show ?thesis using IH neq nf ws_nil by (cases "ws = []") auto
    qed
  next
    case Halt
    note B = body_summary[OF Halt(1)]
    have r: "r = Return True" using body_outcome[OF Halt(1)] Halt(2) by simp
    show ?thesis
    proof (cases "fires E (token A) (Suc (ctr st))")
      case True
      then show ?thesis using B r by auto
    next
      case False
      then have "\<not> skipped A st w" "matches E A w" "fcard (finsert w (items st)) = MAX_COUNT"
          "items st' = finsert w (items st)"
        using B r by (auto split: if_splits)
      moreover from this have "w |\<notin>| items st" by (simp add: skipped_def)
      ultimately show ?thesis using B r False by auto
    qed
  qed
qed

lemma for_words_items_origin:
  "for_words E A st ws = (r, st') \<Longrightarrow> w |\<in>| items st' \<Longrightarrow> w |\<notin>| items st \<Longrightarrow>
     \<exists>k. k < length ws \<and> ctr st + k < ctr st' \<and> ws ! k = w \<and> \<not> fires E (token A) (Suc (ctr st + k)) \<and>
         2 \<le> length w \<and> w \<noteq> exclude A \<and> w |\<notin>| noMatchWords st \<and> matches E A w"
proof (induction ws arbitrary: st)
  case Nil
  then show ?case by simp
next
  case (Cons v ws)
  have here: "\<exists>k. k < length (v # ws) \<and> ctr st + k < ctr st1 \<and> (v # ws) ! k = w \<and>
         \<not> fires E (token A) (Suc (ctr st + k)) \<and>
         2 \<le> length w \<and> w \<noteq> exclude A \<and> w |\<notin>| noMatchWords st \<and> matches E A w"
    if b: "loop_body E A st v = (r1, st1)" and i: "w |\<in>| items st1" for r1 st1
  proof -
    from body_summary[OF b] i Cons.prems(3)
    have "v = w \<and> \<not> fires E (token A) (Suc (ctr st)) \<and> \<not> skipped A st w \<and> matches E A w \<and> ctr st1 = Suc (ctr st)"
      by (auto split: if_splits)
    then have "0 < length (v # ws) \<and> ctr st + 0 < ctr st1 \<and> (v # ws) ! 0 = w \<and>
         \<not> fires E (token A) (Suc (ctr st + 0)) \<and>
         2 \<le> length w \<and> w \<noteq> exclude A \<and> w |\<notin>| noMatchWords st \<and> matches E A w"
      by (auto simp: skipped_def)
    then show ?thesis by blast
  qed
  from Cons.prems(1) show ?case
  proof (cases rule: for_words_Cons_cases)
    case (Go st1)
    note B = body_summary[OF Go(1)]
    note R = for_words_basic[OF Go(2)]
    show ?thesis
    proof (cases "w |\<in>| items st1")
      case True
      from here[OF Go(1) True] obtain k where
        "k < length (v # ws) \<and> ctr st + k < ctr st1 \<and> (v # ws) ! k = w \<and>
         \<not> fires E (token A) (Suc (ctr st + k)) \<and>
         2 \<le> length w \<and> w \<noteq> exclude A \<and> w |\<notin>| noMatchWords st \<and> matches E A w" by blast
      then have "k < length (v # ws) \<and> ctr st + k < ctr st' \<and> (v # ws) ! k = w \<and>
         \<not> fires E (token A) (Suc (ctr st + k)) \<and>
         2 \<le> length w \<and> w \<noteq> exclude A \<and> w |\<notin>| noMatchWords st \<and> matches E A w"
        using R by auto
      then show ?thesis by blast
    next
      case False
      from Cons.IH[OF Go(2) Cons.prems(2) False] obtain k where
        k: "k < length ws" "ctr st1 + k < ctr st'" "ws ! k = w" "\<not> fires E (token A) (Suc (ctr st1 + k))"
           "2 \<le> length w" "w \<noteq> exclude A" "w |\<notin>| noMatchWords st1" "matches E A w" by blast
      have "noMatchWords st |\<subseteq>| noMatchWords st1" using body_mono[OF Go(1)] by simp
      then have "w |\<notin>| noMatchWords st" using k(7) by auto
      then have "Suc k < length (v # ws) \<and> ctr st + Suc k < ctr st' \<and> (v # ws) ! Suc k = w \<and>
         \<not> fires E (token A) (Suc (ctr st + Suc k)) \<and>
         2 \<le> length w \<and> w \<noteq> exclude A \<and> w |\<notin>| noMatchWords st \<and> matches E A w"
        using k B by auto
      then show ?thesis by blast
    qed
  next
    case Halt
    from here[OF Halt(1) Cons.prems(2)] show ?thesis .
  qed
qed













lemma for_words_checked:
  "for_words E A st ws = (r, st') \<Longrightarrow>
     checked_at (trace st') =
       checked_at (trace st) @ filter (\<lambda>n. n mod 100 = 0) [Suc (ctr st)..<Suc (ctr st')]"
proof (induction ws arbitrary: st)
  case Nil
  then show ?case by simp
next
  case (Cons v ws)
  from Cons.prems(1) show ?case
  proof (cases rule: for_words_Cons_cases)
    case (Go st1)
    note B = body_summary[OF Go(1)]
    note R = for_words_basic[OF Go(2)]
    have "Suc (ctr st) < Suc (ctr st')" using B R by auto
    then have "[Suc (ctr st)..<Suc (ctr st')] = Suc (ctr st) # [Suc (ctr st1)..<Suc (ctr st')]"
      using B by (simp add: upt_conv_Cons)
    then show ?thesis using Cons.IH[OF Go(2)] B by simp
  next
    case Halt
    note B = body_summary[OF Halt(1)]
    then show ?thesis by simp
  qed
qed

lemma for_words_tests:
  "for_words E A st ws = (r, st') \<Longrightarrow>
     (length (input A) \<le> 1 \<longrightarrow> fuzzy_tested (trace st') = fuzzy_tested (trace st)) \<and>
     (\<not> firstMatch A \<longrightarrow> first_tested (trace st') = first_tested (trace st)) \<and>
     set (first_tested (trace st')) \<subseteq> set (first_tested (trace st)) \<union> {w \<in> set ws. 2 \<le> length w} \<and>
     set (fuzzy_tested (trace st')) \<subseteq> set (fuzzy_tested (trace st)) \<union> {w \<in> set ws. 2 \<le> length w}"
proof (induction ws arbitrary: st)
  case Nil
  then show ?case by simp
next
  case (Cons v ws)
  have here: "(length (input A) \<le> 1 \<longrightarrow> fuzzy_tested (trace st1) = fuzzy_tested (trace st)) \<and>
     (\<not> firstMatch A \<longrightarrow> first_tested (trace st1) = first_tested (trace st)) \<and>
     set (first_tested (trace st1)) \<subseteq> set (first_tested (trace st)) \<union> {w \<in> {v}. 2 \<le> length w} \<and>
     set (fuzzy_tested (trace st1)) \<subseteq> set (fuzzy_tested (trace st)) \<union> {w \<in> {v}. 2 \<le> length w}"
    if b: "loop_body E A st v = (r1, st1)" for r1 st1
    using body_summary[OF b] by (auto simp: skipped_def split: if_splits)
  from Cons.prems(1) show ?case
  proof (cases rule: for_words_Cons_cases)
    case (Go st1)
    from Cons.IH[OF Go(2)] here[OF Go(1)] show ?thesis by auto
  next
    case Halt
    from here[OF Halt(1)] show ?thesis by auto
  qed
qed

lemma for_words_hit:
  "for_words E A st ws = (r, st') \<Longrightarrow> fires E (token A) n \<Longrightarrow> ctr st < n \<Longrightarrow> n \<le> ctr st' \<Longrightarrow>
     ctr st' = n \<and> r = Return True"
proof (induction ws arbitrary: st)
  case Nil
  then show ?case by simp
next
  case (Cons v ws)
  from Cons.prems(1) show ?case
  proof (cases rule: for_words_Cons_cases)
    case (Go st1)
    note B = body_summary[OF Go(1)]
    have "n \<noteq> Suc (ctr st)" using B Cons.prems(2) by (auto split: if_splits)
    then have "ctr st1 < n" using B Cons.prems(3) by simp
    from Cons.IH[OF Go(2) Cons.prems(2) this Cons.prems(4)] show ?thesis .
  next
    case Halt
    note B = body_summary[OF Halt(1)]
    from body_outcome[OF Halt(1)] Halt(2) B Cons.prems(3,4) show ?thesis by auto
  qed
qed








lemma for_words_cap_bound:
  "for_words E A st ws = (r, st') \<Longrightarrow> fcard (items st) < MAX_COUNT \<Longrightarrow>
     fcard (items st') \<le> MAX_COUNT \<and> (r = Continue \<longrightarrow> fcard (items st') < MAX_COUNT)"
proof (induction ws arbitrary: st)
  case Nil
  then show ?case by simp
next
  case (Cons v ws)
  have here: "fcard (items st1) \<le> MAX_COUNT \<and> (r1 = Continue \<longrightarrow> fcard (items st1) < MAX_COUNT)"
    if b: "loop_body E A st v = (r1, st1)" for r1 st1
    using body_summary[OF b] Cons.prems(2)
    by (auto simp: fcard_finsert_if skipped_def split: if_splits)
  from Cons.prems(1) show ?case
  proof (cases rule: for_words_Cons_cases)
    case (Go st1)
    from here[OF Go(1)] Cons.IH[OF Go(2)] show ?thesis by simp
  next
    case Halt
    from here[OF Halt(1)] Halt(2) show ?thesis by simp
  qed
qed

lemma getResults_extend:
  assumes "getResults E fm nmw its inp excl acc tok = (Return True, st')"
  shows "getResults E fm nmw (its @ rest) inp excl acc tok = (Return True, st')"
  using assms unfolding getResults_def for_iterables_concat
  by (auto simp: for_words_append split: prod.splits outcome.splits)

lemma for_words_stop_point:
  "for_words E A st ws = (Return b, st') \<Longrightarrow>
     \<exists>st1. ctr st' - ctr st - 1 < length ws \<and>
           for_words E A st (take (ctr st' - ctr st - 1) ws) = (Continue, st1) \<and>
           loop_body E A st1 (ws ! (ctr st' - ctr st - 1)) = (Return b, st')"
proof (induction ws arbitrary: st)
  case Nil
  then show ?case by simp
next
  case (Cons v ws)
  from Cons.prems show ?case
  proof (cases rule: for_words_Cons_cases)
    case (Go st1)
    note B = body_summary[OF Go(1)]
    note R = for_words_basic[OF Go(2)]
    define k where "k = ctr st' - ctr st1 - 1"
    from Cons.IH[OF Go(2)] obtain st2 where
      k: "k < length ws"
         "for_words E A st1 (take k ws) = (Continue, st2)"
         "loop_body E A st2 (ws ! k) = (Return b, st')"
      unfolding k_def by blast
    have "ctr st1 < ctr st'" using R by simp
    then have e: "ctr st' - ctr st - 1 = Suc k" unfolding k_def using B by linarith
    have "for_words E A st (take (Suc k) (v # ws)) = (Continue, st2)"
      using k(2) Go(1) by simp
    moreover have "loop_body E A st2 ((v # ws) ! Suc k) = (Return b, st')"
      using k(3) by simp
    moreover have "Suc k < length (v # ws)" using k(1) by simp
    ultimately show ?thesis unfolding e by blast
  next
    case Halt
    note B = body_summary[OF Halt(1)]
    have e: "ctr st' - ctr st - 1 = 0" using B by simp
    show ?thesis unfolding e using Halt(1) by simp
  qed
qed

section \<open>From the loops to \<open>getResults\<close>\<close>

lemma getResults_flat:
  assumes "getResults E fm nmw its inp excl acc tok = (r, st')"
  obtains r0 where
    "for_words E \<lparr>firstMatch = fm, input = inp, exclude = excl, token = tok\<rparr>
       \<lparr>ctr = 0, prev = clock_start E, items = acc, noMatchWords = nmw, trace = []\<rparr>
       (concat its) = (r0, st')"
    "r = (if r0 = Continue then Return False else r0)"
  using assms unfolding getResults_def for_iterables_concat
  by (auto split: prod.splits outcome.splits)

lemma getResults_outcome:
  assumes "getResults E fm nmw its inp excl acc tok = (r, st')"
  shows "(r = Return True \<or> r = Return False) \<and>
     (r = Return True \<longleftrightarrow>
        (0 < ctr st' \<and> fires E tok (ctr st')) \<or>
        (fcard (items st') = MAX_COUNT \<and> items st' \<noteq> acc)) \<and>
     ctr st' \<le> length (concat its) \<and>
     (r = Return False \<longrightarrow> ctr st' = length (concat its)) \<and>
     (ctr st' < length (concat its) \<longrightarrow> r = Return True)"
proof -
  from assms obtain r0 where
    f: "for_words E \<lparr>firstMatch = fm, input = inp, exclude = excl, token = tok\<rparr>
       \<lparr>ctr = 0, prev = clock_start E, items = acc, noMatchWords = nmw, trace = []\<rparr>
       (concat its) = (r0, st')"
    and r: "r = (if r0 = Continue then Return False else r0)"
    by (rule getResults_flat)
  note B = for_words_basic[OF f]
  note S = for_words_stop[OF f]
  show ?thesis
  proof (cases "r0 = Continue")
    case True
    then have 1: "r = Return False" using r by simp
    have 2: "ctr st' = length (concat its)" using B True by simp
    have 3: "\<not> (0 < ctr st' \<and> fires E tok (ctr st'))"
      using S True B by (cases "concat its = []") auto
    have 4: "\<not> (fcard (items st') = MAX_COUNT \<and> items st' \<noteq> acc)"
      using S True by auto
    have 5: "r \<noteq> Return True" using 1 by simp
    have 6: "ctr st' \<le> length (concat its)" using 2 by (rule eq_imp_le)
    have 7: "\<not> ctr st' < length (concat its)" using 2 by linarith
    show ?thesis using 1 2 3 4 5 6 7 by blast
  next
    case False
    then have t: "r = Return True" "r0 = Return True" "0 < ctr st'" using r B by auto
    have 1: "r \<noteq> Return False" using t by simp
    have 2: "ctr st' \<le> length (concat its)" using B by simp
    have 3: "(0 < ctr st' \<and> fires E tok (ctr st')) \<or>
        (fcard (items st') = MAX_COUNT \<and> items st' \<noteq> acc)"
      using S t by auto
    show ?thesis using t(1) 1 2 3 by blast
  qed
qed

lemma replicate_numeral: "replicate (numeral k) x = x # replicate (pred_numeral k) x"
  by (simp add: numeral_eq_Suc)



lemma getResults_checked:
  assumes "getResults E fm nmw its inp excl acc tok = (r, st')"
  shows "checked_at (trace st') = filter (\<lambda>n. n mod 100 = 0) [1..<Suc (ctr st')]"
proof -
  from assms obtain r0 where
    f: "for_words E \<lparr>firstMatch = fm, input = inp, exclude = excl, token = tok\<rparr>
       \<lparr>ctr = 0, prev = clock_start E, items = acc, noMatchWords = nmw, trace = []\<rparr>
       (concat its) = (r0, st')"
    by (rule getResults_flat)
  from for_words_checked[OF f] show ?thesis by (simp add: checked_at_def)
qed

lemma getResults_hit:
  assumes "getResults E fm nmw its inp excl acc tok = (r, st')"
    and "fires E tok n" "0 < n" "n \<le> ctr st'"
  shows "ctr st' = n \<and> r = Return True"
proof -
  from assms(1) obtain r0 where
    f: "for_words E \<lparr>firstMatch = fm, input = inp, exclude = excl, token = tok\<rparr>
       \<lparr>ctr = 0, prev = clock_start E, items = acc, noMatchWords = nmw, trace = []\<rparr>
       (concat its) = (r0, st')"
    and r: "r = (if r0 = Continue then Return False else r0)"
    by (rule getResults_flat)
  from for_words_hit[OF f] assms(2-4) r show ?thesis by simp
qed

lemma no_check_below_100: "n < 100 \<Longrightarrow> filter (\<lambda>n. n mod 100 = 0) [1..<Suc n] = []"
  by (auto simp: filter_empty_conv)








lemma getResults_single_Continue:
  assumes "for_words E \<lparr>firstMatch = fm, input = inp, exclude = excl, token = tok\<rparr>
       \<lparr>ctr = 0, prev = clock_start E, items = acc, noMatchWords = nmw, trace = []\<rparr> xs = (Continue, st1)"
  shows "getResults E fm nmw [xs] inp excl acc tok = (Return False, st1)"
  using assms by (simp add: getResults_def)

lemma cap_step:
  assumes b: "loop_body E A st1 w = (Return True, st')" and nf: "\<not> fires E (token A) (ctr st')"
  shows "w |\<notin>| items st1 \<and> items st' = finsert w (items st1)"
proof -
  note L = body_summary[OF b]
  have c: "ctr st' = Suc (ctr st1)" using L by simp
  have nf1: "\<not> fires E (token A) (Suc (ctr st1))" using nf c by simp
  have ns: "\<not> skipped A st1 w"
  proof
    assume "skipped A st1 w"
    then have "Return True = Continue" using L nf1 by simp
    then show False by simp
  qed
  have m: "matches E A w"
  proof (rule ccontr)
    assume "\<not> matches E A w"
    then have "Return True = Continue" using L nf1 ns by simp
    then show False by simp
  qed
  have "items st' = finsert w (items st1)" using L nf1 ns m by simp
  moreover have "w |\<notin>| items st1" using ns by (simp add: skipped_def)
  ultimately show ?thesis by simp
qed

lemma getResults_cap_point:
  assumes g: "getResults E fm nmw its inp excl acc tok = (r, st')"
    and c: "items st' \<noteq> acc" "fcard (items st') = MAX_COUNT"
  shows "0 < ctr st' \<and>
     (\<exists>st1. getResults E fm nmw [take (ctr st' - 1) (concat its)] inp excl acc tok = (Return False, st1) \<and>
        concat its ! (ctr st' - 1) |\<notin>| items st1 \<and>
        items st' = finsert (concat its ! (ctr st' - 1)) (items st1))"
proof -
  from g obtain r0 where
    f: "for_words E \<lparr>firstMatch = fm, input = inp, exclude = excl, token = tok\<rparr>
       \<lparr>ctr = 0, prev = clock_start E, items = acc, noMatchWords = nmw, trace = []\<rparr>
       (concat its) = (r0, st')"
    and r: "r = (if r0 = Continue then Return False else r0)"
    by (rule getResults_flat)
  note B = for_words_basic[OF f]
  note S = for_words_stop[OF f]
  have "r0 \<noteq> Continue" using S c by simp
  then have t: "r0 = Return True" using B by blast
  then have nf: "\<not> fires E tok (ctr st')" using S c by simp
  have pos: "0 < ctr st'" using B t by simp
  from for_words_stop_point[OF f[unfolded t]] obtain st1 where
    k: "for_words E \<lparr>firstMatch = fm, input = inp, exclude = excl, token = tok\<rparr>
       \<lparr>ctr = 0, prev = clock_start E, items = acc, noMatchWords = nmw, trace = []\<rparr>
       (take (ctr st' - 1) (concat its)) = (Continue, st1)"
       "loop_body E \<lparr>firstMatch = fm, input = inp, exclude = excl, token = tok\<rparr> st1
          (concat its ! (ctr st' - 1)) = (Return True, st')"
    by auto
  have "concat its ! (ctr st' - 1) |\<notin>| items st1 \<and>
        items st' = finsert (concat its ! (ctr st' - 1)) (items st1)"
    using nf by (intro cap_step[OF k(2)]) simp
  then show ?thesis using pos getResults_single_Continue[OF k(1)] by blast
qed



text \<open>Unfolding every definition evaluates the scan on a concrete input.\<close>

lemmas eval_defs = getResults_def loop_body_def checkpoint_def first_test_def second_test_def
  firstMatchFuzzy_def char_at_def charCodeAt0_def num_less_def num_greater_def
  WORD_PREFIXES_def WORD_PREFIXES_CODE_def ASCII_END_def MAX_COUNT_def MAX_DURATION_def
  firstCode_def ascii_def E0_def caseMatch_spec_def getCharCodes_spec_def fuzzyMatch_spec_def
  unidecode_sample_def w_foo_def w_far_def w_bar_def w_test_def in_f_def in_fo_def
  never_cancelled_def pre_cancelled_def in_eacute_def w_ueacute_def
  Let_def fcard_finsert_if fcard_fempty

lemma seed49_card: "fcard seed49 = 49"
  unfolding seed49_def
  by (simp add: fcard.rep_eq fset_of_list.rep_eq card_image inj_on_def del: upt_Suc)

lemma seed49_fresh: "[102, 111, 111] |\<notin>| seed49" "[102, 97, 114] |\<notin>| seed49"
  unfolding seed49_def by (auto simp: fset_of_list.rep_eq)

lemma seed50_card: "fcard seed50 = 50"
  by (simp add: seed50_def w_far_def fcard_finsert_if seed49_fresh seed49_card)

section \<open>The scan when no session-end event arrives\<close>







section \<open>The pre-filter cannot fail inside the scan\<close>

text \<open>
  Claim C10.  On a word of at least two characters \<open>firstMatchFuzzy\<close> returns a boolean:
  the second character is there when the prefix rule reads it.  No call of \<open>getResults\<close>
  ends in an exception, and every word the scan hands to \<open>firstMatchFuzzy\<close> has at least
  two characters, because shorter candidates are skipped before the test.
\<close>

theorem firstMatchFuzzy_total_in_scan:
  "(2 \<le> length w \<longrightarrow> (\<exists>b. firstMatchFuzzy E fc a w = Inr b)) \<and>
   (\<forall>e. fst (getResults E fm nmw its inp excl acc tok) \<noteq> Throw e) \<and>
   (\<forall>v \<in> set (first_tested (trace (snd (getResults E fm nmw its inp excl acc tok)))).
       2 \<le> length v)"
proof -
  obtain r st' where g: "getResults E fm nmw its inp excl acc tok = (r, st')"
    by (cases "getResults E fm nmw its inp excl acc tok") auto
  from g obtain r0 where
    f: "for_words E \<lparr>firstMatch = fm, input = inp, exclude = excl, token = tok\<rparr>
       \<lparr>ctr = 0, prev = clock_start E, items = acc, noMatchWords = nmw, trace = []\<rparr>
       (concat its) = (r0, st')"
    and r: "r = (if r0 = Continue then Return False else r0)"
    by (rule getResults_flat)
  have "\<forall>e. r \<noteq> Throw e" using for_words_basic[OF f] r by auto
  moreover have "\<forall>v \<in> set (first_tested (trace st')). 2 \<le> length v"
    using for_words_tests[OF f] by (auto simp: first_tested_def)
  ultimately show ?thesis using g fmf_total[of w E fc a] by auto
qed

theorem firstMatchFuzzy_total_in_scan_witness:
  "2 \<le> length w_test \<and> (\<exists>b. firstMatchFuzzy E0 (Some 116) True w_test = Inr b) \<and>
   w_foo \<in> set (first_tested (trace (snd
      (getResults E0 True {||} [[w_foo, w_far, w_bar]] in_f [] {||} never_cancelled)))) \<and>
   2 \<le> length w_foo"
proof -
  have m: "w_foo \<in> set (first_tested (trace (snd
      (getResults E0 True {||} [[w_foo, w_far, w_bar]] in_f [] {||} never_cancelled))))"
    by (simp add: eval_defs first_tested_def)
  have l: "2 \<le> length w_test" by (simp add: w_test_def)
  from firstMatchFuzzy_total_in_scan[of w_test E0 "Some 116" True True "{||}"
      "[[w_foo, w_far, w_bar]]" in_f "[]" "{||}" never_cancelled] m l
  show ?thesis by blast
qed

section \<open>What the returned boolean means\<close>

text \<open>
  Claim C1, as amended.  \<open>getResults\<close> always returns a boolean.  It returns \<open>true\<close>
  exactly when it left the loops at one of their two \<open>return true\<close> statements: at a
  periodic check (the counter a positive multiple of 100) that saw the token signalled or
  the budget exceeded, or right after an insertion that brought the accumulator to
  \<open>MAX_COUNT\<close>.  Either can happen at the very last candidate, so \<open>true\<close> does not mean
  that a candidate was left unexamined.  The two never coincide.  It returns \<open>false\<close>
  exactly when neither happened, and then every candidate of every stream was drawn.
  When a candidate was left undrawn the result is \<open>true\<close>.
\<close>

theorem getResults_true_iff_stop_point:
  assumes "getResults E fm nmw its inp excl acc tok = (r, st')"
  shows "(r = Return True \<or> r = Return False) \<and>
     (r = Return True \<longleftrightarrow>
        (0 < ctr st' \<and> fires E tok (ctr st')) \<or>
        (fcard (items st') = MAX_COUNT \<and> items st' \<noteq> acc)) \<and>
     \<not> ((0 < ctr st' \<and> fires E tok (ctr st')) \<and>
        (fcard (items st') = MAX_COUNT \<and> items st' \<noteq> acc)) \<and>
     ctr st' \<le> length (concat its) \<and>
     (r = Return False \<longrightarrow> ctr st' = length (concat its)) \<and>
     (ctr st' < length (concat its) \<longrightarrow> r = Return True)"
proof -
  from assms obtain r0 where
    f: "for_words E \<lparr>firstMatch = fm, input = inp, exclude = excl, token = tok\<rparr>
       \<lparr>ctr = 0, prev = clock_start E, items = acc, noMatchWords = nmw, trace = []\<rparr>
       (concat its) = (r0, st')"
    and r: "r = (if r0 = Continue then Return False else r0)"
    by (rule getResults_flat)
  note B = for_words_basic[OF f]
  note S = for_words_stop[OF f]
  have le: "ctr st' \<le> length (concat its)" using B by simp
  show ?thesis
  proof (cases "r0 = Continue")
    case True
    then have 1: "r = Return False" "r \<noteq> Return True" using r by simp_all
    have 2: "ctr st' = length (concat its)" using B True by simp
    have 3: "\<not> (0 < ctr st' \<and> fires E tok (ctr st'))"
      using S True B by (cases "concat its = []") auto
    have 4: "\<not> ctr st' < length (concat its)" using 2 by linarith
    have 5: "\<not> (fcard (items st') = MAX_COUNT \<and> items st' \<noteq> acc)"
      using S True by auto
    show ?thesis using 1 2 3 4 5 le by blast
  next
    case False
    then have t: "r = Return True" "r0 = Return True" "0 < ctr st'" using r B by auto
    have 1: "r \<noteq> Return False" using t by simp
    have 2: "(fires E tok (ctr st') \<and> \<not> (fcard (items st') = MAX_COUNT \<and> items st' \<noteq> acc)) \<or>
        (\<not> fires E tok (ctr st') \<and> fcard (items st') = MAX_COUNT \<and> items st' \<noteq> acc)"
      using S t by auto
    show ?thesis using t(1,3) 1 2 le by blast
  qed
qed

theorem getResults_true_iff_stop_point_witness:
  "getResults E0 True {||} [[w_foo, w_far, w_bar]] in_f [] {||} never_cancelled =
     (Return False, \<lparr>ctr = 3, prev = 0, items = {|w_far, w_foo|}, noMatchWords = {|w_bar|},
        trace = [CallFirstMatchFuzzy w_foo, CallFirstMatchFuzzy w_far, CallFirstMatchFuzzy w_bar]\<rparr>) \<and>
   \<not> fires E0 never_cancelled 3 \<and> fcard {|w_far, w_foo|} \<noteq> MAX_COUNT \<and>
   length (concat [[w_foo, w_far, w_bar]]) = 3"
proof -
  have g: "getResults E0 True {||} [[w_foo, w_far, w_bar]] in_f [] {||} never_cancelled =
     (Return False, \<lparr>ctr = 3, prev = 0, items = {|w_far, w_foo|}, noMatchWords = {|w_bar|},
        trace = [CallFirstMatchFuzzy w_foo, CallFirstMatchFuzzy w_far, CallFirstMatchFuzzy w_bar]\<rparr>)"
    by (simp add: eval_defs)
  from getResults_true_iff_stop_point[OF g] g show ?thesis by simp
qed

text \<open>
  Claim C1 as stated fails: with forty-nine words in the accumulator and the single
  candidate \<open>foo\<close> for the input \<open>f\<close>, the scan returns \<open>true\<close> although it has
  examined every candidate of every stream.
\<close>

theorem getResults_true_at_last_candidate_counterexample:
  "fst (getResults E0 True {||} [[w_foo]] in_f [] seed49 never_cancelled) = Return True \<and>
   \<not> ctr (snd (getResults E0 True {||} [[w_foo]] in_f [] seed49 never_cancelled))
       < length (concat [[w_foo]])"
  by (simp add: eval_defs seed49_card seed49_fresh)

section \<open>The count cap\<close>

text \<open>
  Claim C4.  When an insertion brings the accumulator to \<open>MAX_COUNT\<close> words (fifty), the
  scan returns \<open>true\<close> there and then.  The candidate whose insertion reaches the cap is
  the last one drawn: the scan of the candidates before it runs to its end, and the final
  accumulator is the accumulator of that scan with this one candidate added.  Whatever
  streams follow, the call ends in the same state, counter included.  An accumulator that
  starts below the cap therefore never exceeds it: at most \<open>MAX_COUNT\<close> minus its initial
  size words are added, and a scan that returns \<open>false\<close> ends below the cap.
\<close>

theorem cap_reached_stops_scan:
  assumes "getResults E fm nmw its inp excl acc tok = (r, st')"
  shows "MAX_COUNT = 50 \<and> acc |\<subseteq>| items st' \<and>
     (items st' \<noteq> acc \<and> fcard (items st') = MAX_COUNT \<longrightarrow>
        r = Return True \<and> 0 < ctr st' \<and>
        (\<exists>st1. getResults E fm nmw [take (ctr st' - 1) (concat its)] inp excl acc tok =
                 (Return False, st1) \<and>
               concat its ! (ctr st' - 1) |\<notin>| items st1 \<and>
               items st' = finsert (concat its ! (ctr st' - 1)) (items st1)) \<and>
        (\<forall>rest. getResults E fm nmw (its @ rest) inp excl acc tok = (r, st'))) \<and>
     (fcard acc < MAX_COUNT \<longrightarrow>
        fcard (items st') \<le> MAX_COUNT \<and>
        fcard (items st' |-| acc) \<le> MAX_COUNT - fcard acc \<and>
        (r = Return False \<longrightarrow> fcard (items st') < MAX_COUNT))"
proof -
  from assms obtain r0 where
    f: "for_words E \<lparr>firstMatch = fm, input = inp, exclude = excl, token = tok\<rparr>
       \<lparr>ctr = 0, prev = clock_start E, items = acc, noMatchWords = nmw, trace = []\<rparr>
       (concat its) = (r0, st')"
    and r: "r = (if r0 = Continue then Return False else r0)"
    by (rule getResults_flat)
  note B = for_words_basic[OF f]
  note S = for_words_stop[OF f]
  have sub: "acc |\<subseteq>| items st'" using B by simp
  have stop: "r = Return True \<and> 0 < ctr st' \<and>
        (\<exists>st1. getResults E fm nmw [take (ctr st' - 1) (concat its)] inp excl acc tok =
                 (Return False, st1) \<and>
               concat its ! (ctr st' - 1) |\<notin>| items st1 \<and>
               items st' = finsert (concat its ! (ctr st' - 1)) (items st1)) \<and>
        (\<forall>rest. getResults E fm nmw (its @ rest) inp excl acc tok = (r, st'))"
    if h: "items st' \<noteq> acc \<and> fcard (items st') = MAX_COUNT"
  proof -
    have "r0 \<noteq> Continue" using S h by simp
    then have t: "r = Return True" using B r by auto
    then have "getResults E fm nmw its inp excl acc tok = (Return True, st')" using assms by simp
    from getResults_extend[OF this] t
    have e: "\<forall>rest. getResults E fm nmw (its @ rest) inp excl acc tok = (r, st')" by simp
    from h have h1: "items st' \<noteq> acc" and h2: "fcard (items st') = MAX_COUNT" by simp_all
    from getResults_cap_point[OF assms h1 h2] t e show ?thesis by blast
  qed
  have bound: "fcard (items st') \<le> MAX_COUNT \<and>
        fcard (items st' |-| acc) \<le> MAX_COUNT - fcard acc \<and>
        (r = Return False \<longrightarrow> fcard (items st') < MAX_COUNT)"
    if h: "fcard acc < MAX_COUNT"
  proof -
    have c: "fcard (items st') \<le> MAX_COUNT \<and> (r0 = Continue \<longrightarrow> fcard (items st') < MAX_COUNT)"
      using for_words_cap_bound[OF f] h by simp
    have "fcard (items st' |-| acc) = fcard (items st') - fcard acc"
      using sub by (rule fcard_funion_fsubset)
    then show ?thesis using c r B by auto
  qed
  have mc: "MAX_COUNT = 50" by (simp add: MAX_COUNT_def)
  show ?thesis using mc sub stop bound by blast
qed

theorem cap_reached_stops_scan_witness:
  "getResults E0 True {||} [[w_foo]] in_f [] seed49 never_cancelled =
     (Return True, \<lparr>ctr = 1, prev = 0, items = finsert w_foo seed49, noMatchWords = {||},
        trace = [CallFirstMatchFuzzy w_foo]\<rparr>) \<and>
   finsert w_foo seed49 \<noteq> seed49 \<and> fcard (finsert w_foo seed49) = MAX_COUNT \<and>
   fcard seed49 < MAX_COUNT \<and>
   getResults E0 True {||} ([[w_foo]] @ [[w_far]]) in_f [] seed49 never_cancelled =
     (Return True, \<lparr>ctr = 1, prev = 0, items = finsert w_foo seed49, noMatchWords = {||},
        trace = [CallFirstMatchFuzzy w_foo]\<rparr>) \<and>
   fcard (finsert w_foo seed49 |-| seed49) \<le> MAX_COUNT - fcard seed49"
proof -
  have g: "getResults E0 True {||} [[w_foo]] in_f [] seed49 never_cancelled =
     (Return True, \<lparr>ctr = 1, prev = 0, items = finsert w_foo seed49, noMatchWords = {||},
        trace = [CallFirstMatchFuzzy w_foo]\<rparr>)"
    by (simp add: eval_defs seed49_card seed49_fresh)
  have n: "finsert w_foo seed49 \<noteq> seed49" using seed49_fresh(1) by (auto simp: w_foo_def)
  have c: "fcard (finsert w_foo seed49) = MAX_COUNT"
    by (simp add: fcard_finsert_if seed49_fresh seed49_card w_foo_def MAX_COUNT_def)
  have l: "fcard seed49 < MAX_COUNT" by (simp add: seed49_card MAX_COUNT_def)
  note T = cap_reached_stops_scan[OF g, simplified scan_state.simps]
  from T n c
  have 1: "getResults E0 True {||} ([[w_foo]] @ [[w_far]]) in_f [] seed49 never_cancelled =
     (Return True, \<lparr>ctr = 1, prev = 0, items = finsert w_foo seed49, noMatchWords = {||},
        trace = [CallFirstMatchFuzzy w_foo]\<rparr>)"
    by blast
  from T l
  have 2: "fcard (finsert w_foo seed49 |-| seed49) \<le> MAX_COUNT - fcard seed49"
    by blast
  show ?thesis using g n c l 1 2 by blast
qed

section \<open>The cap test on a full accumulator\<close>

text \<open>
  Claim C9.  The cap test compares the size with \<open>MAX_COUNT\<close> for equality, right after an
  insertion: a scan that returns \<open>true\<close> without a periodic check having ended it has
  just grown the accumulator to exactly \<open>MAX_COUNT\<close>.  With \<open>MAX_COUNT\<close> or more words in
  the accumulator on entry the cap never triggers: every insertion takes the size beyond
  the cap, the scan returns \<open>true\<close> only at a periodic check that saw the token
  signalled or the budget exceeded, and otherwise it runs through every stream; with
  fewer than a hundred candidates it returns \<open>false\<close>.
\<close>

theorem cap_test_is_equality:
  assumes "getResults E fm nmw its inp excl acc tok = (r, st')"
  shows "MAX_COUNT = 50 \<and>
     (r = Return True \<and> \<not> (0 < ctr st' \<and> fires E tok (ctr st')) \<longrightarrow>
        fcard (items st') = MAX_COUNT \<and> items st' \<noteq> acc) \<and>
     (MAX_COUNT \<le> fcard acc \<longrightarrow>
        (r = Return True \<longleftrightarrow> 0 < ctr st' \<and> fires E tok (ctr st')) \<and>
        (r = Return False \<longrightarrow> ctr st' = length (concat its)) \<and>
        (length (concat its) < 100 \<longrightarrow> r = Return False) \<and>
        (items st' \<noteq> acc \<longrightarrow> MAX_COUNT < fcard (items st')))"
proof -
  from assms obtain r0 where
    f: "for_words E \<lparr>firstMatch = fm, input = inp, exclude = excl, token = tok\<rparr>
       \<lparr>ctr = 0, prev = clock_start E, items = acc, noMatchWords = nmw, trace = []\<rparr>
       (concat its) = (r0, st')"
    and r: "r = (if r0 = Continue then Return False else r0)"
    by (rule getResults_flat)
  note B = for_words_basic[OF f]
  note T = getResults_outcome[OF assms]
  have 1: "r = Return True \<and> \<not> (0 < ctr st' \<and> fires E tok (ctr st')) \<longrightarrow>
        fcard (items st') = MAX_COUNT \<and> items st' \<noteq> acc"
    using T by blast
  have 2: "(r = Return True \<longleftrightarrow> 0 < ctr st' \<and> fires E tok (ctr st')) \<and>
        (r = Return False \<longrightarrow> ctr st' = length (concat its)) \<and>
        (length (concat its) < 100 \<longrightarrow> r = Return False) \<and>
        (items st' \<noteq> acc \<longrightarrow> MAX_COUNT < fcard (items st'))"
    if h: "MAX_COUNT \<le> fcard acc"
  proof -
    have grow: "MAX_COUNT < fcard (items st')" if n: "items st' \<noteq> acc"
    proof -
      have "acc |\<subset>| items st'" using B n by auto
      then have "fcard acc < fcard (items st')" by (rule pfsubset_fcard_mono)
      then show ?thesis using h by simp
    qed
    have nocap: "\<not> (fcard (items st') = MAX_COUNT \<and> items st' \<noteq> acc)"
    proof
      assume a: "fcard (items st') = MAX_COUNT \<and> items st' \<noteq> acc"
      then have "MAX_COUNT < fcard (items st')" using grow by blast
      then show False using a by simp
    qed
    have a: "r = Return True \<longleftrightarrow> 0 < ctr st' \<and> fires E tok (ctr st')"
      using T nocap by blast
    have b: "r = Return False" if l: "length (concat its) < 100"
    proof -
      have "\<not> (0 < ctr st' \<and> fires E tok (ctr st'))"
        using T l by (auto simp: fires_def)
      then show ?thesis using a T by blast
    qed
    show ?thesis using a b grow T by blast
  qed
  have mc: "MAX_COUNT = 50" by (simp add: MAX_COUNT_def)
  show ?thesis using mc 1 2 by blast
qed

theorem cap_test_is_equality_witness:
  "getResults E0 True {||} [[w_foo]] in_f [] seed50 never_cancelled =
     (Return False, \<lparr>ctr = 1, prev = 0, items = finsert w_foo seed50, noMatchWords = {||},
        trace = [CallFirstMatchFuzzy w_foo]\<rparr>) \<and>
   MAX_COUNT \<le> fcard seed50 \<and> length (concat [[w_foo]]) < 100 \<and>
   finsert w_foo seed50 \<noteq> seed50 \<and> MAX_COUNT < fcard (finsert w_foo seed50)"
proof -
  have g: "getResults E0 True {||} [[w_foo]] in_f [] seed50 never_cancelled =
     (Return False, \<lparr>ctr = 1, prev = 0, items = finsert w_foo seed50, noMatchWords = {||},
        trace = [CallFirstMatchFuzzy w_foo]\<rparr>)"
    by (simp add: eval_defs seed50_card seed50_def seed49_card seed49_fresh)
  have "w_foo |\<notin>| seed50" by (simp add: seed50_def w_foo_def w_far_def seed49_fresh)
  then have n: "finsert w_foo seed50 \<noteq> seed50" by (metis finsertI1)
  have c: "MAX_COUNT \<le> fcard seed50" by (simp add: seed50_card MAX_COUNT_def)
  from cap_test_is_equality[OF g] g n c show ?thesis by simp
qed

section \<open>The periodic check\<close>



section \<open>A token signalled before the scan\<close>

text \<open>
  Claim C5, as amended.  With a token that is signalled from the start, the scan draws
  at most a hundred candidates, and it returns \<open>true\<close> whenever the streams hold at
  least a hundred.  With fewer than a hundred candidates the token is never polled, and
  the scan returns \<open>true\<close> only if it reaches the count cap.  In every case the
  accumulator keeps what it held and gains only words among the first ninety-nine
  candidates, and once \<open>true\<close> is returned no later stream is examined.
\<close>

theorem precancelled_token:
  assumes "getResults E fm nmw its inp excl acc tok = (r, st')" and "\<forall>n. tok n"
  shows "ctr st' \<le> 100 \<and>
     (100 \<le> length (concat its) \<longrightarrow> r = Return True) \<and>
     (length (concat its) < 100 \<longrightarrow>
        checked_at (trace st') = [] \<and>
        (r = Return True \<longleftrightarrow> fcard (items st') = MAX_COUNT \<and> items st' \<noteq> acc)) \<and>
     acc |\<subseteq>| items st' \<and>
     fset (items st') \<subseteq> fset acc \<union> set (take 99 (concat its)) \<and>
     (r = Return True \<longrightarrow>
        (\<forall>rest. getResults E fm nmw (its @ rest) inp excl acc tok = (r, st')))"
proof -
  from assms(1) obtain r0 where
    f: "for_words E \<lparr>firstMatch = fm, input = inp, exclude = excl, token = tok\<rparr>
       \<lparr>ctr = 0, prev = clock_start E, items = acc, noMatchWords = nmw, trace = []\<rparr>
       (concat its) = (r0, st')"
    and r: "r = (if r0 = Continue then Return False else r0)"
    by (rule getResults_flat)
  note B = for_words_basic[OF f]
  note O = getResults_outcome[OF assms(1)]
  have F: "fires E tok 100" using assms(2) by (simp add: fires_def)
  have 1: "ctr st' \<le> 100"
  proof (rule ccontr)
    assume "\<not> ctr st' \<le> 100"
    then have "100 \<le> ctr st'" by simp
    from getResults_hit[OF assms(1) F _ this] \<open>\<not> ctr st' \<le> 100\<close> show False by simp
  qed
  have 2: "r = Return True" if l: "100 \<le> length (concat its)"
  proof (rule ccontr)
    assume n: "r \<noteq> Return True"
    then have "r = Return False" using O by blast
    then have "100 \<le> ctr st'" using O l by simp
    from getResults_hit[OF assms(1) F _ this] n show False by simp
  qed
  have 3: "checked_at (trace st') = [] \<and>
        (r = Return True \<longleftrightarrow> fcard (items st') = MAX_COUNT \<and> items st' \<noteq> acc)"
    if l: "length (concat its) < 100"
  proof -
    have c: "ctr st' < 100" using O l by simp
    then have "checked_at (trace st') = []"
      using getResults_checked[OF assms(1)] no_check_below_100 by simp
    moreover have "\<not> (0 < ctr st' \<and> fires E tok (ctr st'))" using c by (auto simp: fires_def)
    ultimately show ?thesis using O by blast
  qed
  have 4: "acc |\<subseteq>| items st'" using B by simp
  have 5: "fset (items st') \<subseteq> fset acc \<union> set (take 99 (concat its))"
  proof
    fix w assume w: "w \<in> fset (items st')"
    show "w \<in> fset acc \<union> set (take 99 (concat its))"
    proof (cases "w |\<in>| acc")
      case True
      then show ?thesis by simp
    next
      case False
      from for_words_items_origin[OF f, of w] w False obtain k where
        k: "k < length (concat its)" "k < ctr st'" "concat its ! k = w" "\<not> fires E tok (Suc k)"
        by auto
      have "Suc k \<noteq> 100" using k(4) F by auto
      then have "k < 99" using k(2) 1 by simp
      then have "k < length (take 99 (concat its))" "take 99 (concat its) ! k = w"
        using k(1,3) by simp_all
      then have "w \<in> set (take 99 (concat its))" using nth_mem by blast
      then show ?thesis by simp
    qed
  qed
  have 6: "\<forall>rest. getResults E fm nmw (its @ rest) inp excl acc tok = (r, st')" if t: "r = Return True"
    using getResults_extend assms(1) t by blast
  show ?thesis using 1 2 3 4 5 6 by blast
qed

theorem precancelled_token_witness:
  "getResults E0 True {||} [hundred_bars] in_f [] {||} pre_cancelled =
     (Return True, \<lparr>ctr = 100, prev = 0, items = {||}, noMatchWords = {|w_bar|},
        trace = [CallFirstMatchFuzzy w_bar, Checked 100]\<rparr>) \<and>
   (\<forall>n. pre_cancelled n) \<and> 100 \<le> length (concat [hundred_bars]) \<and>
   getResults E0 True {||} ([hundred_bars] @ [[w_foo]]) in_f [] {||} pre_cancelled =
     (Return True, \<lparr>ctr = 100, prev = 0, items = {||}, noMatchWords = {|w_bar|},
        trace = [CallFirstMatchFuzzy w_bar, Checked 100]\<rparr>)"
proof -
  have g: "getResults E0 True {||} [hundred_bars] in_f [] {||} pre_cancelled =
     (Return True, \<lparr>ctr = 100, prev = 0, items = {||}, noMatchWords = {|w_bar|},
        trace = [CallFirstMatchFuzzy w_bar, Checked 100]\<rparr>)"
    by (simp add: eval_defs hundred_bars_def replicate_numeral)
  have p: "\<forall>n. pre_cancelled n" by (simp add: pre_cancelled_def)
  have l: "100 \<le> length (concat [hundred_bars])" by (simp add: hundred_bars_def)
  from precancelled_token[OF g p]
  have e: "getResults E0 True {||} ([hundred_bars] @ [[w_foo]]) in_f [] {||} pre_cancelled =
     (Return True, \<lparr>ctr = 100, prev = 0, items = {||}, noMatchWords = {|w_bar|},
        trace = [CallFirstMatchFuzzy w_bar, Checked 100]\<rparr>)"
    by blast
  show ?thesis using g p l e by blast
qed

text \<open>
  Claim C5 as stated fails: with the single candidate \<open>foo\<close> and a token signalled
  before the scan begins, the scan adds \<open>foo\<close> and returns \<open>false\<close>.
\<close>

theorem precancelled_short_scan_counterexample:
  "fst (getResults E0 True {||} [[w_foo]] in_f [] {||} pre_cancelled) = Return False \<and>
   items (snd (getResults E0 True {||} [[w_foo]] in_f [] {||} pre_cancelled)) = {|w_foo|}"
  by (simp add: eval_defs)

section \<open>The prefix rule of the pre-filter\<close>




section \<open>Inputs of one character\<close>




section \<open>Candidates that are skipped\<close>



section \<open>The negative memory\<close>




end
